theory Spec2Isabelle
  imports Complex_Main
begin

section \<open>Prime resonance field: the numeric pipeline of prime_resonance_field.py\<close>

text \<open>
  The embedding follows \<^verbatim>\<open>src/prime_resonance_field.py\<close>. Python integers are
  \<^typ>\<open>int\<close>; Python lists are HOL lists; numpy arrays of doubles are lists of
  \<^typ>\<open>real\<close>, so every floating-point operation is read as the real operation it
  approximates.
\<close>

subsection \<open>Python building blocks\<close>

text \<open>\<^verbatim>\<open>range(a, b)\<close>: the integers from \<open>a\<close> up to and excluding \<open>b\<close>; empty when \<open>b \<le> a\<close>.\<close>

definition py_range :: "int \<Rightarrow> int \<Rightarrow> int list" where
  "py_range a b = [a..b - 1]"

text \<open>
  \<^verbatim>\<open>int(p**0.5)\<close>: the square root of \<open>p\<close> as a real number, truncated towards zero.
  The source only evaluates it at \<open>p \<ge> 2\<close>, where truncation is the floor.
\<close>

definition int_sqrt :: "int \<Rightarrow> int" where
  "int_sqrt p = \<lfloor>sqrt (real_of_int p)\<rfloor>"

text \<open>A search that computes the same number; it is used to evaluate \<open>int_sqrt\<close>.\<close>

primrec sqrt_search :: "nat \<Rightarrow> nat \<Rightarrow> nat" where
  "sqrt_search 0 p = 0"
| "sqrt_search (Suc k) p = (if Suc k * Suc k \<le> p then Suc k else sqrt_search k p)"

subsection \<open>The sieve (line 35)\<close>

text \<open>\<^verbatim>\<open>all(p % d != 0 for d in range(2, int(p**0.5)+1))\<close>\<close>

definition no_divisor :: "int \<Rightarrow> bool" where
  "no_divisor p = list_all (\<lambda>d. p mod d \<noteq> 0) (py_range 2 (int_sqrt p + 1))"

text \<open>\<^verbatim>\<open>primes = [p for p in range(2, n) if all(...)]\<close>\<close>

definition spiral_primes :: "int \<Rightarrow> int list" where
  "spiral_primes n = filter no_divisor (py_range 2 n)"

subsection \<open>Sacred constants (lines 27-28)\<close>

definition PHI :: real where
  "PHI = (1 + sqrt 5) / 2"

definition IAM_FREQ :: real where
  "IAM_FREQ = 528"

subsection \<open>numpy operations used by the projection\<close>

text \<open>
  \<^verbatim>\<open>np.array(xs)\<close> of a list of integers, used in float arithmetic; the
  element-wise operations on two arrays of one shape; the operations with a scalar.
\<close>

definition np_array :: "int list \<Rightarrow> real list" where
  "np_array xs = map real_of_int xs"

definition np_mul :: "real list \<Rightarrow> real list \<Rightarrow> real list" where
  "np_mul a b = map2 (*) a b"

definition np_div :: "real list \<Rightarrow> real list \<Rightarrow> real list" where
  "np_div a b = map2 (/) a b"

definition np_mul_scalar :: "real list \<Rightarrow> real \<Rightarrow> real list" where
  "np_mul_scalar a c = map (\<lambda>v. v * c) a"

definition np_div_scalar :: "real list \<Rightarrow> real \<Rightarrow> real list" where
  "np_div_scalar a c = map (\<lambda>v. v / c) a"

definition scalar_mul_np :: "real \<Rightarrow> real list \<Rightarrow> real list" where
  "scalar_mul_np c a = map (\<lambda>v. c * v) a"

definition scalar_pow_np :: "real \<Rightarrow> real list \<Rightarrow> real list" where
  "scalar_pow_np c a = map (\<lambda>e. c powr e) a"

definition np_sqrt :: "real list \<Rightarrow> real list" where
  "np_sqrt a = map sqrt a"

definition np_cos :: "real list \<Rightarrow> real list" where
  "np_cos a = map cos a"

definition np_sin :: "real list \<Rightarrow> real list" where
  "np_sin a = map sin a"

subsection \<open>Dimensional tagging (lines 38-46)\<close>

text \<open>
  The body of the loop: the \<^verbatim>\<open>if/elif/else\<close> that sets \<^verbatim>\<open>dim\<close>
  (named \<open>dim_tag\<close> here, as \<open>dim\<close> is a constant of the library).
\<close>

definition dim_tag :: "int \<Rightarrow> int" where
  "dim_tag p = (if p mod 13 = 0 then 5 else if p mod 5 = 0 then 3 else 2)"

text \<open>The loop \<^verbatim>\<open>for p in primes: ...; dimensions.append(dim)\<close>, on the list built so far.\<close>

fun dimensions_loop :: "int list \<Rightarrow> int list \<Rightarrow> int list" where
  "dimensions_loop [] dimensions = dimensions"
| "dimensions_loop (p # ps) dimensions = dimensions_loop ps (dimensions @ [dim_tag p])"

subsection \<open>The spiral generator (lines 33-58)\<close>

type_synonym spiral = "real list \<times> real list \<times> real list \<times> real list \<times> int list"

definition generate_resonance_spiral :: "int \<Rightarrow> spiral" where
  "generate_resonance_spiral n =
     (let primes = spiral_primes n;
          dimensions = dimensions_loop primes [];
          theta = np_div_scalar (np_mul_scalar (np_array primes) pi) 13;
          r = np_sqrt (np_array primes);
          x = np_mul r (np_cos theta);
          y = np_mul r (np_sin theta);
          z = np_mul (np_array primes)
                (np_sin (np_div theta (scalar_pow_np PHI (np_array dimensions))));
          tones = np_div (scalar_mul_np IAM_FREQ (np_array primes))
                    (scalar_pow_np PHI (np_array dimensions))
      in (x, y, z, tones, dimensions))"

text \<open>
  The outcome of a call. The specification names two errors; the body of
  \<^verbatim>\<open>generate_resonance_spiral\<close> has no \<^verbatim>\<open>raise\<close> and no test of \<open>n\<close>, so
  a call with an integer always returns.
\<close>

datatype error = InvalidBound | InternalConsistency

definition call_generate_resonance_spiral :: "int \<Rightarrow> error + spiral" where
  "call_generate_resonance_spiral n = Inr (generate_resonance_spiral n)"

subsection \<open>Twin detection (lines 61-67)\<close>

text \<open>
  \<^verbatim>\<open>for i in range(len(primes)-1)\<close>: the index runs while \<open>i < len(primes) - 1\<close>,
  an integer comparison, so that the empty list gives no iteration.
\<close>

function tag_loop :: "int list \<Rightarrow> nat \<Rightarrow> (int \<times> int) list \<Rightarrow> (int \<times> int) list" where
  "tag_loop primes i twins =
     (if int i < int (length primes) - 1
      then tag_loop primes (Suc i)
             (if primes ! (i + 1) - primes ! i = 2
              then twins @ [(primes ! i, primes ! (i + 1))] else twins)
      else twins)"
  by pat_completeness auto
termination
  by (relation "measure (\<lambda>(primes, i, twins). length primes - i)") auto

declare tag_loop.simps [simp del]

definition tag_entanglement :: "int list \<Rightarrow> (int \<times> int) list" where
  "tag_entanglement primes = tag_loop primes 0 []"

subsection \<open>The driver (lines 70-75)\<close>

text \<open>The default of the parameter \<open>n\<close> (line 33) and the sieve written again at line 75.\<close>

definition default_n :: int where
  "default_n = 2350"

definition main_primes :: "int list" where
  "main_primes = filter no_divisor (py_range 2 2350)"

text \<open>
  One run of the driver up to the twin detection: the line printed with the reading
  \<open>now\<close> of the clock (\<^verbatim>\<open>datetime.now().isoformat()\<close>; the symbol that opens the
  line is left out), the spiral and the twins.
\<close>

record run =
  printed :: string
  spiral_of :: spiral
  twins_of :: "(int \<times> int) list"

definition main :: "string \<Rightarrow> run" where
  "main now =
     \<lparr> printed = ''PRIME RESONANCE ACTIVATED @ '' @ now,
       spiral_of = generate_resonance_spiral default_n,
       twins_of = tag_entanglement main_primes \<rparr>"

subsection \<open>Specification vocabulary\<close>

text \<open>
  The specification's notion of a prime: an integer greater than 1 that no integer
  strictly between 1 and itself divides.
\<close>

definition is_prime :: "int \<Rightarrow> bool" where
  "is_prime p \<longleftrightarrow> 1 < p \<and> (\<forall>d \<in> {2..p - 1}. \<not> d dvd p)"

section \<open>Properties\<close>

subsection \<open>Square root\<close>

lemma sqrt_search_le: "sqrt_search k p \<le> k"
  by (induction k) auto

lemma sqrt_search_sq: "sqrt_search k p * sqrt_search k p \<le> p"
  by (induction k) auto

lemma sqrt_search_max: "r \<le> k \<Longrightarrow> r * r \<le> p \<Longrightarrow> r \<le> sqrt_search k p"
proof (induction k)
  case 0
  then show ?case by simp
next
  case (Suc k)
  show ?case
  proof (cases "Suc k * Suc k \<le> p")
    case True
    with Suc.prems show ?thesis by simp
  next
    case False
    with Suc.prems have "r \<noteq> Suc k" by auto
    with Suc.prems have "r \<le> k" by simp
    with Suc False show ?thesis by simp
  qed
qed

lemma int_sqrt_bounds:
  assumes "0 \<le> p"
  shows "0 \<le> int_sqrt p" and "int_sqrt p * int_sqrt p \<le> p"
    and "p < (int_sqrt p + 1) * (int_sqrt p + 1)"
proof -
  let ?s = "sqrt (real_of_int p)"
  have s0: "0 \<le> ?s" using assms by simp
  then show r0: "0 \<le> int_sqrt p" by (simp add: int_sqrt_def)
  have le: "real_of_int (int_sqrt p) \<le> ?s" by (simp add: int_sqrt_def)
  have "real_of_int (int_sqrt p) * real_of_int (int_sqrt p) \<le> ?s * ?s"
    using le r0 assms by (intro mult_mono) auto
  also have "?s * ?s = real_of_int p" using assms by simp
  finally have "real_of_int (int_sqrt p * int_sqrt p) \<le> real_of_int p" by simp
  then show "int_sqrt p * int_sqrt p \<le> p" by linarith
  have lt: "?s < real_of_int (int_sqrt p + 1)" by (simp add: int_sqrt_def)
  have "?s * ?s < real_of_int (int_sqrt p + 1) * real_of_int (int_sqrt p + 1)"
    using lt assms by (intro mult_strict_mono') auto
  then have "real_of_int p < real_of_int ((int_sqrt p + 1) * (int_sqrt p + 1))"
    using assms by simp
  then show "p < (int_sqrt p + 1) * (int_sqrt p + 1)" by linarith
qed

lemma int_sqrt_ge:
  assumes "0 \<le> r" and "r * r \<le> p"
  shows "r \<le> int_sqrt p"
proof (rule ccontr)
  assume "\<not> r \<le> int_sqrt p"
  then have a: "int_sqrt p + 1 \<le> r" by simp
  have p0: "0 \<le> p" using assms by (meson order_trans zero_le_square)
  have "0 \<le> int_sqrt p + 1" using int_sqrt_bounds(1)[OF p0] by simp
  then have "(int_sqrt p + 1) * (int_sqrt p + 1) \<le> r * r"
    using a by (intro mult_mono) auto
  with int_sqrt_bounds(3)[OF p0] assms show False by linarith
qed

lemma int_sqrt_code: "0 \<le> p \<Longrightarrow> int_sqrt p = int (sqrt_search (nat p) (nat p))"
proof -
  assume p0: "0 \<le> p"
  let ?k = "sqrt_search (nat p) (nat p)"
  have "int ?k * int ?k \<le> p"
    using sqrt_search_sq[of "nat p" "nat p"] p0
    by (metis int_nat_eq of_nat_le_iff of_nat_mult)
  then have up: "int ?k \<le> int_sqrt p" by (intro int_sqrt_ge) auto
  let ?r = "nat (int_sqrt p)"
  have r0: "0 \<le> int_sqrt p" by (rule int_sqrt_bounds(1)[OF p0])
  have rr: "int_sqrt p * int_sqrt p \<le> p" by (rule int_sqrt_bounds(2)[OF p0])
  have "int_sqrt p \<le> int_sqrt p * int_sqrt p"
    using r0 by (cases "int_sqrt p = 0") (auto simp: mult_le_cancel_left1)
  with rr have "int_sqrt p \<le> p" by linarith
  then have a: "?r \<le> nat p" by simp
  have "int (?r * ?r) \<le> int (nat p)" using rr r0 p0 by simp
  then have b: "?r * ?r \<le> nat p" by (simp only: of_nat_le_iff)
  from sqrt_search_max[OF a b] have "int_sqrt p \<le> int ?k" using r0 by linarith
  with up show ?thesis by simp
qed

subsection \<open>The sieve computes the primes below the bound\<close>

lemma set_py_range: "set (py_range a b) = {a..<b}"
  by (auto simp: py_range_def)

lemma sorted_py_range: "sorted_wrt (<) (py_range a b)"
  by (simp add: py_range_def sorted_wrt_upto)

lemma distinct_py_range: "distinct (py_range a b)"
  by (simp add: py_range_def)

lemma no_divisor_iff: "no_divisor p \<longleftrightarrow> (\<forall>d. 2 \<le> d \<and> d \<le> int_sqrt p \<longrightarrow> \<not> d dvd p)"
  by (auto simp: no_divisor_def list_all_iff set_py_range dvd_eq_mod_eq_0)

lemma small_factor:
  fixes d p :: int
  assumes "2 \<le> d" and "d < p" and "d dvd p"
  shows "\<exists>e. 2 \<le> e \<and> e * e \<le> p \<and> e dvd p"
proof -
  from assms obtain k where k: "p = d * k" by (auto simp: dvd_def)
  have "0 < d * k" using assms k by simp
  then have kpos: "0 < k" using assms by (simp add: zero_less_mult_iff)
  have k2: "2 \<le> k"
  proof (rule ccontr)
    assume "\<not> 2 \<le> k"
    with kpos have "k = 1" by simp
    with k assms show False by simp
  qed
  show ?thesis
  proof (cases "d \<le> k")
    case True
    then have "d * d \<le> d * k" using assms by (intro mult_left_mono) auto
    with k assms show ?thesis by auto
  next
    case False
    then have "k * k \<le> d * k" using kpos by (intro mult_right_mono) auto
    moreover have "k dvd p" using k by simp
    ultimately show ?thesis using k k2 by auto
  qed
qed

lemma no_divisor_is_prime:
  assumes "2 \<le> p"
  shows "no_divisor p \<longleftrightarrow> is_prime p"
proof
  assume nd: "no_divisor p"
  have "\<not> d dvd p" if "d \<in> {2..p - 1}" for d
  proof
    assume "d dvd p"
    with that small_factor[of d p] obtain e where e: "2 \<le> e" "e * e \<le> p" "e dvd p" by auto
    then have "e \<le> int_sqrt p" by (intro int_sqrt_ge) auto
    with nd e show False by (auto simp: no_divisor_iff)
  qed
  with assms show "is_prime p" by (auto simp: is_prime_def)
next
  assume pr: "is_prime p"
  have "\<not> d dvd p" if d: "2 \<le> d" "d \<le> int_sqrt p" for d
  proof -
    have p0: "0 \<le> p" using assms by simp
    have "d * d \<le> int_sqrt p * int_sqrt p" using d by (intro mult_mono) auto
    with int_sqrt_bounds(2)[OF p0] have dd: "d * d \<le> p" by linarith
    have "2 * d \<le> d * d" using d by (intro mult_right_mono) auto
    with dd d have "d \<le> p - 1" by linarith
    with d pr show ?thesis by (auto simp: is_prime_def)
  qed
  then show "no_divisor p" by (auto simp: no_divisor_iff)
qed

lemma is_prime_iff:
  "is_prime p \<longleftrightarrow> 1 < p \<and> (\<forall>d. 0 < d \<and> d dvd p \<longrightarrow> d = 1 \<or> d = p)"
proof
  assume pr: "is_prime p"
  have "d = 1 \<or> d = p" if "0 < d" "d dvd p" for d
  proof -
    from pr have "0 < p" by (simp add: is_prime_def)
    with that have "d \<le> p" by (auto dest: zdvd_imp_le)
    with that pr show ?thesis by (fastforce simp: is_prime_def)
  qed
  with pr show "1 < p \<and> (\<forall>d. 0 < d \<and> d dvd p \<longrightarrow> d = 1 \<or> d = p)"
    by (auto simp: is_prime_def)
next
  assume "1 < p \<and> (\<forall>d. 0 < d \<and> d dvd p \<longrightarrow> d = 1 \<or> d = p)"
  then have a: "1 < p" and b: "\<And>d. 0 < d \<Longrightarrow> d dvd p \<Longrightarrow> d = 1 \<or> d = p" by auto
  have "\<not> d dvd p" if "d \<in> {2..p - 1}" for d
    using b[of d] that by auto
  with a show "is_prime p" by (simp add: is_prime_def)
qed

lemma spiral_primes_filter: "spiral_primes n = filter is_prime (py_range 2 n)"
  unfolding spiral_primes_def
  by (rule filter_cong) (auto simp: set_py_range no_divisor_is_prime)

lemma set_spiral_primes: "set (spiral_primes n) = {p. 2 \<le> p \<and> p < n \<and> is_prime p}"
  by (auto simp: spiral_primes_filter set_py_range)

lemma sorted_spiral_primes: "sorted_wrt (<) (spiral_primes n)"
  unfolding spiral_primes_def by (intro sorted_wrt_filter sorted_py_range)

lemma distinct_spiral_primes: "distinct (spiral_primes n)"
  unfolding spiral_primes_def by (intro distinct_filter distinct_py_range)

lemma spiral_primes_small: "n \<le> 2 \<Longrightarrow> spiral_primes n = []"
  by (simp add: spiral_primes_def py_range_def)

lemma no_divisor_eval:
  "0 \<le> p \<Longrightarrow> no_divisor p = list_all (\<lambda>d. p mod d \<noteq> 0) (py_range 2 (int (sqrt_search (nat p) (nat p)) + 1))"
  by (simp add: no_divisor_def int_sqrt_code)

lemma is_prime_not_composite:
  assumes "is_prime p" and "1 < a" and "1 < b"
  shows "p \<noteq> a * b"
proof
  assume eq: "p = a * b"
  then have "a dvd p" by simp
  moreover have "0 < a" using assms by simp
  ultimately have "a = 1 \<or> a = p" using assms(1) by (simp add: is_prime_iff)
  with assms eq show False by auto
qed

lemma spiral_primes_10: "spiral_primes 10 = [2, 3, 5, 7]"
  by (simp add: spiral_primes_def py_range_def no_divisor_eval eval_nat_numeral)

text \<open>
  C1. For every integer bound \<open>n\<close> the sieve at the start of
  \<^verbatim>\<open>generate_resonance_spiral\<close> returns the primes \<open>p\<close> with \<open>2 \<le> p < n\<close> in
  order: the list is strictly increasing, has no duplicates, its elements are exactly
  the primes below \<open>n\<close>, none of them is a product of two integers greater than 1;
  at bound 10 it is \<open>[2, 3, 5, 7]\<close>, and at every bound \<open>n \<le> 2\<close> it is empty.
\<close>

theorem sieve_correct:
  "sorted_wrt (<) (spiral_primes n) \<and> distinct (spiral_primes n)
   \<and> set (spiral_primes n) = {p. 2 \<le> p \<and> p < n \<and> is_prime p}
   \<and> (\<forall>p \<in> set (spiral_primes n). \<forall>a b. 1 < a \<and> 1 < b \<longrightarrow> p \<noteq> a * b)
   \<and> spiral_primes 10 = [2, 3, 5, 7]
   \<and> (n \<le> 2 \<longrightarrow> spiral_primes n = [])"
proof -
  have "\<forall>p \<in> set (spiral_primes n). \<forall>a b. 1 < a \<and> 1 < b \<longrightarrow> p \<noteq> a * b"
    using is_prime_not_composite by (auto simp: set_spiral_primes)
  then show ?thesis
    using sorted_spiral_primes distinct_spiral_primes set_spiral_primes
      spiral_primes_10 spiral_primes_small by blast
qed

theorem sieve_correct_witness:
  "(2::int) \<le> 2 \<and> spiral_primes 2 = [] \<and> set (spiral_primes 10) = {2, 3, 5, 7}
   \<and> {p. 2 \<le> p \<and> p < 10 \<and> is_prime p} = {2, 3, 5, 7}"
proof -
  have a: "spiral_primes 2 = []" using sieve_correct [of 2] by simp
  have "set (spiral_primes 10) = {p. 2 \<le> p \<and> p < 10 \<and> is_prime p}"
    and b: "spiral_primes 10 = [2, 3, 5, 7]"
    using sieve_correct [of 10] by blast+
  then have "{p. 2 \<le> p \<and> p < 10 \<and> is_prime p} = {2, 3, 5, 7}" by simp
  with a b show ?thesis by simp
qed

subsection \<open>Dimensional tagging\<close>

lemma dimensions_loop_map: "dimensions_loop ps acc = acc @ map dim_tag ps"
  by (induction ps arbitrary: acc) auto

text \<open>
  C2. The tag of \<open>p\<close> follows the rule in its order of precedence: 5 when 13 divides
  \<open>p\<close>, else 3 when 5 divides \<open>p\<close>, else 2. It is defined for every integer and lies
  in \<open>{2, 3, 5}\<close>; 13 maps to 5, 5 to 3, 7 to 2 and 2 to 2; and the list
  \<^verbatim>\<open>dimensions\<close> that the generator returns is this tag applied to each prime of
  the sieve, in order.
\<close>

theorem dim_rule:
  "(p mod 13 = 0 \<longrightarrow> dim_tag p = 5)
   \<and> (p mod 13 \<noteq> 0 \<and> p mod 5 = 0 \<longrightarrow> dim_tag p = 3)
   \<and> (p mod 13 \<noteq> 0 \<and> p mod 5 \<noteq> 0 \<longrightarrow> dim_tag p = 2)
   \<and> dim_tag p \<in> {2, 3, 5}
   \<and> dim_tag 13 = 5 \<and> dim_tag 5 = 3 \<and> dim_tag 7 = 2 \<and> dim_tag 2 = 2
   \<and> snd (snd (snd (snd (generate_resonance_spiral n)))) = map dim_tag (spiral_primes n)"
  by (simp add: dim_tag_def generate_resonance_spiral_def Let_def dimensions_loop_map)

theorem dim_rule_witness:
  "dim_tag 26 = 5 \<and> dim_tag 65 = 5 \<and> dim_tag 10 = 3 \<and> dim_tag 7 = 2
   \<and> snd (snd (snd (snd (generate_resonance_spiral 10)))) = [2, 2, 3, 2]"
  using dim_rule [of 26 10] dim_rule [of 65 10] dim_rule [of 10 10] dim_rule [of 7 10]
  by (simp add: spiral_primes_10 dim_tag_def)

subsection \<open>Twin detection\<close>

lemma tag_loop_eq:
  "tag_loop primes i twins =
     twins @ map (\<lambda>j. (primes ! j, primes ! (j + 1)))
               (filter (\<lambda>j. primes ! (j + 1) - primes ! j = 2) [i..<length primes - 1])"
proof (induction primes i twins rule: tag_loop.induct)
  case (1 primes i twins)
  let ?tw = "if primes ! (i + 1) - primes ! i = 2
              then twins @ [(primes ! i, primes ! (i + 1))] else twins"
  show ?case
  proof (cases "int i < int (length primes) - 1")
    case True
    then have lt: "i < length primes - 1" by linarith
    have up: "[i..<length primes - 1] = i # [Suc i..<length primes - 1]"
      using lt by (rule upt_conv_Cons)
    have "tag_loop primes i twins = tag_loop primes (Suc i) ?tw"
      using True by (subst tag_loop.simps) simp
    also have "\<dots> = ?tw @ map (\<lambda>j. (primes ! j, primes ! (j + 1)))
               (filter (\<lambda>j. primes ! (j + 1) - primes ! j = 2) [Suc i..<length primes - 1])"
      by (rule "1.IH"[OF True])
    finally show ?thesis using lt by (simp add: upt_conv_Cons)
  next
    case False
    then have "\<not> i < length primes - 1" by linarith
    with False show ?thesis by (subst tag_loop.simps) simp
  qed
qed

lemma tag_entanglement_example:
  "tag_entanglement [3, 5, 7, 11, 13] = [(3, 5), (5, 7), (11, 13)]"
  by (simp add: tag_entanglement_def tag_loop_eq upt_conv_Cons)

text \<open>
  C5. For every input list, \<^verbatim>\<open>tag_entanglement\<close> returns exactly the pairs
  \<open>(primes[i], primes[i+1])\<close> for the indices \<open>i\<close> from 0 to \<open>len - 2\<close> with
  \<open>primes[i+1] - primes[i] = 2\<close>, in increasing order of \<open>i\<close>; on
  \<open>[3, 5, 7, 11, 13]\<close> it returns \<open>[(3, 5), (5, 7), (11, 13)]\<close>, and on the empty
  list it returns the empty list.
\<close>

theorem tag_entanglement_pairs:
  "tag_entanglement primes =
     map (\<lambda>i. (primes ! i, primes ! (i + 1)))
       (filter (\<lambda>i. primes ! (i + 1) - primes ! i = 2) [0..<length primes - 1])
   \<and> tag_entanglement [3, 5, 7, 11, 13] = [(3, 5), (5, 7), (11, 13)]
   \<and> tag_entanglement [] = []"
  by (simp add: tag_entanglement_example) (simp add: tag_entanglement_def tag_loop_eq)

subsection \<open>The driver\<close>

text \<open>
  C6. The sieve written again in the driver with the literal bound 2350 is the list
  that \<^verbatim>\<open>generate_resonance_spiral\<close> computes at its default bound, so the
  twins computed from it are the twins of that list.
\<close>

theorem regenerated_primes_equal:
  "main_primes = spiral_primes default_n
   \<and> tag_entanglement main_primes = tag_entanglement (spiral_primes default_n)
   \<and> twins_of (main now) = tag_entanglement (spiral_primes default_n)"
  by (simp add: main_primes_def spiral_primes_def default_n_def main_def)

lemma generate_empty: "n \<le> 2 \<Longrightarrow> generate_resonance_spiral n = ([], [], [], [], [])"
  by (simp add: generate_resonance_spiral_def
      spiral_primes_small np_array_def np_mul_def np_div_def np_mul_scalar_def np_div_scalar_def
      scalar_mul_np_def scalar_pow_np_def np_sqrt_def np_cos_def np_sin_def)

text \<open>
  C7, as stated, fails: at bound 1 the call returns five empty sequences and raises
  nothing.
\<close>

theorem invalid_bound_counterexample:
  "call_generate_resonance_spiral 1 = Inr ([], [], [], [], [])
   \<and> call_generate_resonance_spiral 1 \<noteq> Inl InvalidBound"
  by (simp add: call_generate_resonance_spiral_def generate_empty)

text \<open>
  C7, amended. For every integer bound \<open>n < 2\<close> the call raises no error: it returns
  five empty sequences, and the twin detection over the sieve of \<open>n\<close> returns no pair.
\<close>

theorem small_bound_no_error:
  "n < 2 \<Longrightarrow>
     call_generate_resonance_spiral n = Inr ([], [], [], [], [])
     \<and> tag_entanglement (spiral_primes n) = []"
  by (simp add: call_generate_resonance_spiral_def generate_empty spiral_primes_small
      tag_entanglement_def tag_loop_eq)

theorem small_bound_no_error_witness:
  "(0::int) < 2 \<and> call_generate_resonance_spiral 0 = Inr ([], [], [], [], [])
     \<and> tag_entanglement (spiral_primes 0) = []"
  using small_bound_no_error [of 0] by simp

subsection \<open>The projection and the tones\<close>

lemma PHI_pos: "0 < PHI"
proof -
  have "0 \<le> sqrt (5::real)" by simp
  then have "0 < 1 + sqrt (5::real)" by linarith
  then show ?thesis unfolding PHI_def by simp
qed

lemma dim_tag_cases: "dim_tag p = 2 \<or> dim_tag p = 3 \<or> dim_tag p = 5"
  by (simp add: dim_tag_def)

lemma dim_tag_nonneg: "0 \<le> dim_tag p"
  using dim_tag_cases[of p] by linarith

lemma PHI_powr_dim: "PHI powr real_of_int (dim_tag p) = PHI ^ nat (dim_tag p)"
proof -
  have "real_of_int (dim_tag p) = real (nat (dim_tag p))" using dim_tag_nonneg[of p] by simp
  then show ?thesis by (simp only: powr_realpow[OF PHI_pos])
qed

lemma x_maps:
  "np_mul (np_sqrt (np_array ps)) (np_cos (np_div_scalar (np_mul_scalar (np_array ps) pi) 13))
   = map (\<lambda>p. sqrt (real_of_int p) * cos (real_of_int p * pi / 13)) ps"
  by (induction ps)
    (simp_all add: np_mul_def np_sqrt_def np_array_def np_cos_def np_div_scalar_def np_mul_scalar_def)

lemma y_maps:
  "np_mul (np_sqrt (np_array ps)) (np_sin (np_div_scalar (np_mul_scalar (np_array ps) pi) 13))
   = map (\<lambda>p. sqrt (real_of_int p) * sin (real_of_int p * pi / 13)) ps"
  by (induction ps)
    (simp_all add: np_mul_def np_sqrt_def np_array_def np_sin_def np_div_scalar_def np_mul_scalar_def)

lemma z_maps:
  "np_mul (np_array ps)
     (np_sin (np_div (np_div_scalar (np_mul_scalar (np_array ps) pi) 13)
        (scalar_pow_np PHI (np_array (map dim_tag ps)))))
   = map (\<lambda>p. real_of_int p * sin (real_of_int p * pi / 13 / PHI ^ nat (dim_tag p))) ps"
  by (induction ps)
    (simp_all add: np_mul_def np_div_def np_array_def np_sin_def np_div_scalar_def
      np_mul_scalar_def scalar_pow_np_def PHI_powr_dim)

lemma tones_maps:
  "np_div (scalar_mul_np IAM_FREQ (np_array ps)) (scalar_pow_np PHI (np_array (map dim_tag ps)))
   = map (\<lambda>p. IAM_FREQ * real_of_int p / PHI ^ nat (dim_tag p)) ps"
  by (induction ps)
    (simp_all add: np_div_def np_array_def scalar_mul_np_def scalar_pow_np_def PHI_powr_dim)

lemma generate_resonance_spiral_maps:
  "generate_resonance_spiral n =
     (map (\<lambda>p. sqrt (real_of_int p) * cos (real_of_int p * pi / 13)) (spiral_primes n),
      map (\<lambda>p. sqrt (real_of_int p) * sin (real_of_int p * pi / 13)) (spiral_primes n),
      map (\<lambda>p. real_of_int p * sin (real_of_int p * pi / 13 / PHI ^ nat (dim_tag p))) (spiral_primes n),
      map (\<lambda>p. IAM_FREQ * real_of_int p / PHI ^ nat (dim_tag p)) (spiral_primes n),
      map dim_tag (spiral_primes n))"
  unfolding generate_resonance_spiral_def Let_def dimensions_loop_map append_Nil
    x_maps y_maps z_maps tones_maps
  by (rule refl)

lemma spiral_primes_ge2: "i < length (spiral_primes n) \<Longrightarrow> 2 \<le> spiral_primes n ! i"
proof -
  assume "i < length (spiral_primes n)"
  then have "spiral_primes n ! i \<in> set (spiral_primes n)" by (rule nth_mem)
  then show ?thesis by (simp add: set_spiral_primes)
qed

text \<open>
  C3. For the \<open>i\<close>-th prime \<open>p\<close> of the sieve and its tag \<open>d\<close>, the generator
  returns \<open>x = r cos \<theta>\<close>, \<open>y = r sin \<theta>\<close> and \<open>z = p sin (\<theta> / PHI ^ d)\<close>
  with \<open>\<theta> = p \<pi> / 13\<close>, \<open>r = sqrt p\<close> and \<open>PHI = (1 + sqrt 5) / 2\<close>. No operation
  leaves its domain: the square root is taken of a non-negative number, the base of the
  power is positive and the divisor \<open>PHI ^ d\<close> is not zero.
\<close>

theorem spiral_projection:
  assumes "i < length (spiral_primes n)"
  shows "case generate_resonance_spiral n of (x, y, z, tones, dimensions) \<Rightarrow>
     (let p = real_of_int (spiral_primes n ! i); d = nat (dimensions ! i);
          theta = p * pi / 13; r = sqrt p
      in x ! i = r * cos theta \<and> y ! i = r * sin theta
         \<and> z ! i = p * sin (theta / PHI ^ d)
         \<and> PHI = (1 + sqrt 5) / 2
         \<and> 0 \<le> p \<and> 0 < PHI \<and> PHI ^ d \<noteq> 0)"
proof -
  have "0 \<le> real_of_int (spiral_primes n ! i)"
    using spiral_primes_ge2[OF assms] by simp
  moreover have "PHI ^ k \<noteq> 0" for k using PHI_pos by simp
  ultimately show ?thesis
    using assms PHI_pos
    by (simp add: generate_resonance_spiral_maps Let_def) (simp add: PHI_def)
qed


theorem spiral_projection_witness:
  "(2::nat) < length (spiral_primes 10) \<and>
   (case generate_resonance_spiral 10 of (x, y, z, tones, dimensions) \<Rightarrow>
      x ! 2 = sqrt 5 * cos (5 * pi / 13) \<and> y ! 2 = sqrt 5 * sin (5 * pi / 13)
      \<and> z ! 2 = 5 * sin (5 * pi / 13 / PHI ^ 3) \<and> dimensions ! 2 = 3)"
proof -
  have len: "(2::nat) < length (spiral_primes 10)" by (simp add: spiral_primes_10)
  have d: "snd (snd (snd (snd (generate_resonance_spiral 10)))) ! 2 = 3"
    by (simp add: generate_resonance_spiral_maps spiral_primes_10 dim_tag_def)
  have p: "spiral_primes 10 ! 2 = 5" by (simp add: spiral_primes_10)
  show ?thesis
    using spiral_projection [OF len] len d p
    by (simp add: Let_def split: prod.splits)
qed


text \<open>
  C4. The tone of the \<open>i\<close>-th prime \<open>p\<close> with tag \<open>d\<close> is \<open>528 p / PHI ^ d\<close>, and
  among primes of one tag the tone is strictly increasing in the prime.
\<close>

theorem tone_formula_monotone:
  "case generate_resonance_spiral n of (x, y, z, tones, dimensions) \<Rightarrow>
     (\<forall>i < length (spiral_primes n).
        tones ! i = 528 * real_of_int (spiral_primes n ! i) / PHI ^ nat (dimensions ! i))
     \<and> (\<forall>i < length (spiral_primes n). \<forall>j < length (spiral_primes n).
          dimensions ! i = dimensions ! j \<and> spiral_primes n ! i < spiral_primes n ! j
            \<longrightarrow> tones ! i < tones ! j)"
proof -
  have pos: "0 < PHI ^ k" for k using PHI_pos by simp
  have mono: "IAM_FREQ * real_of_int a / PHI ^ k < IAM_FREQ * real_of_int b / PHI ^ k"
    if "a < b" for a b :: int and k
  proof -
    have "IAM_FREQ * real_of_int a < IAM_FREQ * real_of_int b"
      using that by (simp add: IAM_FREQ_def)
    then show ?thesis using pos[of k] by (simp add: divide_strict_right_mono)
  qed
  show ?thesis
    using mono by (simp add: generate_resonance_spiral_maps) (simp add: IAM_FREQ_def)
qed

theorem tone_formula_monotone_witness:
  "(0::nat) < length (spiral_primes 10) \<and> (1::nat) < length (spiral_primes 10) \<and>
   (case generate_resonance_spiral 10 of (x, y, z, tones, dimensions) \<Rightarrow>
      dimensions ! 0 = dimensions ! 1 \<and> spiral_primes 10 ! 0 < spiral_primes 10 ! 1
      \<and> tones ! 0 = 528 * 2 / PHI ^ 2 \<and> tones ! 1 = 528 * 3 / PHI ^ 2
      \<and> tones ! 0 < tones ! 1)"
proof -
  obtain x y z tones dimensions
    where g: "generate_resonance_spiral 10 = (x, y, z, tones, dimensions)"
    by (cases "generate_resonance_spiral 10") auto
  have d: "dimensions = [2, 2, 3, 2]"
    using g by (simp add: generate_resonance_spiral_maps spiral_primes_10 dim_tag_def)
  have len: "(0::nat) < length (spiral_primes 10)" "(1::nat) < length (spiral_primes 10)"
    by (simp_all add: spiral_primes_10)
  have p: "spiral_primes 10 ! 0 = 2" "spiral_primes 10 ! 1 = 3"
    by (simp_all add: spiral_primes_10)
  have AB: "(\<forall>i < length (spiral_primes 10).
        tones ! i = 528 * real_of_int (spiral_primes 10 ! i) / PHI ^ nat (dimensions ! i))
    \<and> (\<forall>i < length (spiral_primes 10). \<forall>j < length (spiral_primes 10).
          dimensions ! i = dimensions ! j \<and> spiral_primes 10 ! i < spiral_primes 10 ! j
            \<longrightarrow> tones ! i < tones ! j)"
    using tone_formula_monotone [of 10] unfolding g prod.case by this
  note A = conjunct1[OF AB] and B = conjunct2[OF AB]
  have t0: "tones ! 0 = 528 * 2 / PHI ^ 2"
    using A[rule_format, OF len(1)] unfolding p d by simp
  have t1: "tones ! 1 = 528 * 3 / PHI ^ 2"
    using A[rule_format, OF len(2)] unfolding p d by simp
  have lt: "tones ! 0 < tones ! 1"
    using B[rule_format, OF len(1) len(2)] unfolding p d by simp
  show ?thesis using len p t0 t1 lt by (simp add: g d)
qed



text \<open>
  C10. For the \<open>i\<close>-th prime \<open>p\<close> of the sieve, the horizontal coordinates that the
  generator returns satisfy \<open>x\<^sup>2 + y\<^sup>2 = p\<close> over the reals, whatever the tag.
\<close>

theorem horizontal_radius:
  assumes "i < length (spiral_primes n)"
  shows "case generate_resonance_spiral n of (x, y, z, tones, dimensions) \<Rightarrow>
           (x ! i)\<^sup>2 + (y ! i)\<^sup>2 = real_of_int (spiral_primes n ! i)"
proof -
  let ?p = "real_of_int (spiral_primes n ! i)"
  let ?t = "?p * pi / 13"
  have p0: "0 \<le> ?p" using spiral_primes_ge2[OF assms] by simp
  have "(sqrt ?p * cos ?t)\<^sup>2 + (sqrt ?p * sin ?t)\<^sup>2 = (sqrt ?p)\<^sup>2 * ((cos ?t)\<^sup>2 + (sin ?t)\<^sup>2)"
    by (simp only: power_mult_distrib distrib_left)
  also have "\<dots> = ?p" using p0 by simp
  finally show ?thesis using assms by (simp add: generate_resonance_spiral_maps)
qed

theorem horizontal_radius_witness:
  "(2::nat) < length (spiral_primes 10) \<and>
   (case generate_resonance_spiral 10 of (x, y, z, tones, dimensions) \<Rightarrow>
      (x ! 2)\<^sup>2 + (y ! 2)\<^sup>2 = 5)"
proof -
  have len: "(2::nat) < length (spiral_primes 10)" by (simp add: spiral_primes_10)
  have p: "spiral_primes 10 ! 2 = 5" by (simp add: spiral_primes_10)
  show ?thesis using horizontal_radius [OF len] len p by (simp split: prod.splits)
qed

end
